theory Spec2Isabelle
  imports Main
begin

section \<open>The entity/component storage engine of \<^verbatim>\<open>ecs_s.hpp\<close>\<close>

text \<open>
  The header declares \<^verbatim>\<open>using entity = std::uint64_t\<close> and indexes its vectors with
  \<^verbatim>\<open>std::size_t\<close>. Both are modelled as natural numbers; the two places where 64-bit
  arithmetic can wrap (\<^verbatim>\<open>index + 1\<close> and \<^verbatim>\<open>sparse_.size() * 2\<close> in
  \<^verbatim>\<open>grow_sparse_to\<close>, and \<^verbatim>\<open>++next_entity_\<close>) carry an explicit \<open>mod 2 ^ 64\<close>.
  A component type is identified with the \<^verbatim>\<open>component_id\<close> that
  \<^verbatim>\<open>get_component_id<T>()\<close> hands out for it, and all payloads live in one type \<open>'v\<close>.
\<close>

type_synonym entity = nat
type_synonym component_id = nat

definition npos :: nat where
  \<comment> \<open>\<^verbatim>\<open>static_cast<std::size_t>(-1)\<close>, the "absent" mark of the sparse array\<close>
  "npos = 18446744073709551615"

definition max_capacity :: nat where
  \<comment> \<open>\<^verbatim>\<open>static inline const std::size_t max_capacity = 1'000'000\<close>\<close>
  "max_capacity = 1000000"

datatype error =
  CapacityExceeded  \<comment> \<open>\<^verbatim>\<open>throw std::out_of_range("Entity index exceeds maximum sparse capacity")\<close>\<close>
| OutOfBounds       \<comment> \<open>a write past the end of \<^verbatim>\<open>sparse_\<close>: undefined behaviour in C++\<close>
| Dangling          \<comment> \<open>a read through a reference that points to no live payload of
                        \<^verbatim>\<open>dense_\<close> (any more): undefined behaviour in C++\<close>

subsection \<open>The sparse set\<close>

record 'v storage =
  index :: entity
  payload :: 'v

text \<open>
  \<^verbatim>\<open>emplace\<close> takes its payload as a forwarding reference and reads it after
  \<^verbatim>\<open>dense_.emplace_back()\<close>, which moves the elements of \<^verbatim>\<open>dense_\<close> to a new buffer when the
  vector is full. So the set records \<^verbatim>\<open>dense_.capacity()\<close> too. A default-constructed
  vector has capacity 0, and a full vector grows to \<open>grown_capacity\<close>: the doubling of
  libstdc++ and libc++ (the standard leaves the factor to the implementation).
\<close>

record 'v sparse_set =
  sparse :: "nat list"
  dense :: "'v storage list"
  dense_capacity :: nat
  nlive :: nat

definition sparse_set_init :: "'v sparse_set" where
  \<comment> \<open>the constructor: \<^verbatim>\<open>sparse_(1024, static_cast<std::size_t>(-1))\<close>, no dense entry\<close>
  "sparse_set_init = \<lparr>sparse = replicate 1024 npos, dense = [], dense_capacity = 0, nlive = 0\<rparr>"

definition grown_capacity :: "nat \<Rightarrow> nat" where
  \<comment> \<open>the capacity after \<^verbatim>\<open>emplace_back()\<close> on a vector whose size is its capacity \<open>c\<close>\<close>
  "grown_capacity c = max 1 (2 * c)"

definition resize :: "'a list \<Rightarrow> nat \<Rightarrow> 'a \<Rightarrow> 'a list" where
  \<comment> \<open>\<^verbatim>\<open>std::vector::resize(count, value)\<close>\<close>
  "resize xs k v = take k xs @ replicate (k - length xs) v"

definition grow_sparse_to :: "'v sparse_set \<Rightarrow> entity \<Rightarrow> error + 'v sparse_set" where
  "grow_sparse_to s e =
     (if e \<ge> length (sparse s) then
        (let want = (e + 1) mod 2 ^ 64;
             new_size = max (length (sparse s) * 2 mod 2 ^ 64) want
         in if new_size > max_capacity then Inl CapacityExceeded
            else Inr (s\<lparr>sparse := resize (sparse s) new_size npos\<rparr>))
      else Inr s)"

definition size_of :: "'v sparse_set \<Rightarrow> nat" where
  \<comment> \<open>\<^verbatim>\<open>size()\<close>\<close>
  "size_of s = nlive s"

definition has :: "'v sparse_set \<Rightarrow> entity \<Rightarrow> bool" where
  "has s e \<longleftrightarrow>
     e < length (sparse s)
     \<and> sparse s ! e \<noteq> npos
     \<and> sparse s ! e < nlive s
     \<and> index (dense s ! (sparse s ! e)) = e"

definition at :: "'v sparse_set \<Rightarrow> entity \<Rightarrow> 'v" where
  \<comment> \<open>\<^verbatim>\<open>operator[]\<close>; its precondition is \<open>has s e\<close>\<close>
  "at s e = payload (dense s ! (sparse s ! e))"

text \<open>
  The payload argument of \<^verbatim>\<open>emplace(index, args...)\<close>: a value that lives outside the
  storage (a temporary, a local), or the reference \<^verbatim>\<open>operator[]\<close> and \<^verbatim>\<open>get_component<T>\<close>
  return for an entity of the same storage, which points into \<^verbatim>\<open>dense_\<close>.
\<close>

datatype 'v arg =
  Value 'v
| Payload_of entity

definition arg_bound :: "'v sparse_set \<Rightarrow> 'v arg \<Rightarrow> bool" where
  \<comment> \<open>the reference was taken of an entity the storage holds (the precondition of
      \<^verbatim>\<open>operator[]\<close>)\<close>
  "arg_bound s a = (case a of Value v \<Rightarrow> True | Payload_of e1 \<Rightarrow> has s e1)"

definition is_reference :: "'v arg \<Rightarrow> bool" where
  "is_reference a = (case a of Value v \<Rightarrow> False | Payload_of e1 \<Rightarrow> True)"

definition arg_value :: "'v sparse_set \<Rightarrow> 'v arg \<Rightarrow> 'v" where
  \<comment> \<open>what \<^verbatim>\<open>T(std::forward<Args>(args)...)\<close> reads while the reference is valid\<close>
  "arg_value s a = (case a of Value v \<Rightarrow> v | Payload_of e1 \<Rightarrow> at s e1)"

definition emplace :: "'v sparse_set \<Rightarrow> entity \<Rightarrow> 'v arg \<Rightarrow> error + 'v sparse_set" where
  \<comment> \<open>The slot \<^verbatim>\<open>dense_[n]\<close> is first made (\<^verbatim>\<open>emplace_back()\<close> or \<^verbatim>\<open>storage{}\<close>) and then
      both of its fields are assigned; the model writes the finished slot in one step.
      \<^verbatim>\<open>emplace_back()\<close> on a full vector reallocates, and the payload is built from the
      argument after that: a reference into \<^verbatim>\<open>dense_\<close> dangles by then.
      \<^verbatim>\<open>sparse_[index] = n++\<close> is only defined when \<open>index\<close> is inside \<^verbatim>\<open>sparse_\<close>.\<close>
  "emplace s e a =
     (if \<not> arg_bound s a then Inl Dangling
      else
        case grow_sparse_to s e of
          Inl err \<Rightarrow> Inl err
        | Inr g \<Rightarrow>
            if has g e then
              Inr (g\<lparr>dense := (dense g)[sparse g ! e :=
                                  (dense g ! (sparse g ! e))\<lparr>payload := arg_value g a\<rparr>]\<rparr>)
            else if length (dense g) = nlive g \<and> length (dense g) = dense_capacity g
                    \<and> is_reference a then
              Inl Dangling
            else if e < length (sparse g) then
              Inr (g\<lparr>dense := (if length (dense g) = nlive g
                                 then dense g @ [\<lparr>index = e, payload = arg_value g a\<rparr>]
                                 else (dense g)[nlive g := \<lparr>index = e, payload = arg_value g a\<rparr>]),
                     dense_capacity := (if length (dense g) = nlive g
                                           \<and> length (dense g) = dense_capacity g
                                        then grown_capacity (dense_capacity g)
                                        else dense_capacity g),
                     sparse := (sparse g)[e := nlive g],
                     nlive := nlive g + 1\<rparr>)
            else Inl OutOfBounds)"

text \<open>
  The two successful branches of \<^verbatim>\<open>emplace\<close>, named for the proofs: the payload of a
  present entity is overwritten in place, or a new slot is written at \<^verbatim>\<open>dense_[n]\<close>.
\<close>

definition overwrite :: "'v sparse_set \<Rightarrow> entity \<Rightarrow> 'v \<Rightarrow> 'v sparse_set" where
  "overwrite g e v = g\<lparr>dense := (dense g)[sparse g ! e := (dense g ! (sparse g ! e))\<lparr>payload := v\<rparr>]\<rparr>"

definition append_new :: "'v sparse_set \<Rightarrow> entity \<Rightarrow> 'v \<Rightarrow> 'v sparse_set" where
  "append_new g e v = g\<lparr>dense := (if length (dense g) = nlive g
                               then dense g @ [\<lparr>index = e, payload = v\<rparr>]
                               else (dense g)[nlive g := \<lparr>index = e, payload = v\<rparr>]),
                   dense_capacity := (if length (dense g) = nlive g
                                         \<and> length (dense g) = dense_capacity g
                                      then grown_capacity (dense_capacity g)
                                      else dense_capacity g),
                   sparse := (sparse g)[e := nlive g],
                   nlive := nlive g + 1\<rparr>"

definition erase :: "'v sparse_set \<Rightarrow> entity \<Rightarrow> 'v sparse_set" where
  \<comment> \<open>\<^verbatim>\<open>std::move(dense_[n])\<close> is modelled as a copy: the slot it leaves behind is outside
      the live range \<open>[0, n)\<close>.\<close>
  "erase s e =
     (if \<not> has s e then s
      else
        (let old_idx = sparse s ! e;
             m = nlive s - 1;
             d = (if old_idx \<noteq> m then (dense s)[old_idx := dense s ! m] else dense s);
             sp = (if old_idx \<noteq> m then (sparse s)[index (d ! old_idx) := old_idx] else sparse s)
         in s\<lparr>sparse := sp[e := npos], dense := d, nlive := m\<rparr>))"

definition range_of :: "'v sparse_set \<Rightarrow> 'v storage list" where
  \<comment> \<open>\<^verbatim>\<open>range()\<close>: the subrange \<open>[begin(), begin() + n)\<close> of \<^verbatim>\<open>dense_\<close>\<close>
  "range_of s = take (nlive s) (dense s)"

subsection \<open>Well-formed sparse sets\<close>

text \<open>
  The fields \<^verbatim>\<open>sparse_\<close>, \<^verbatim>\<open>dense_\<close> and \<^verbatim>\<open>n\<close> are \<open>sparse\<close>, \<open>dense\<close> and \<open>nlive\<close>
  above, and \<open>dense_capacity\<close> is \<^verbatim>\<open>dense_.capacity()\<close>. Every read and write of \<^verbatim>\<open>has\<close>, \<^verbatim>\<open>emplace\<close> and \<^verbatim>\<open>erase\<close> stays inside its
  vector when the set satisfies \<open>ss_inv\<close>; the invariant holds of the constructor's set
  and is kept by both mutators (lemmas \<open>ss_inv_init\<close>, \<open>ss_inv_emplace\<close>, \<open>ss_inv_erase\<close>).
\<close>

definition ss_inv :: "'v sparse_set \<Rightarrow> bool" where
  "ss_inv s \<longleftrightarrow>
     nlive s \<le> length (dense s)
     \<and> length (dense s) \<le> dense_capacity s
     \<and> nlive s \<le> length (sparse s)
     \<and> length (sparse s) \<le> max_capacity
     \<and> (\<forall>i. i < nlive s \<longrightarrow>
           index (dense s ! i) < length (sparse s) \<and> sparse s ! (index (dense s ! i)) = i)"

subsection \<open>The registry\<close>

text \<open>
  \<^verbatim>\<open>next_entity_\<close> is a static member (shared by every registry of the process); the model
  follows one registry and keeps the counter in its state. \<^verbatim>\<open>component_storages_\<close> maps
  a component id to the storage the registry owns for it; the map never holds a null
  pointer, so an absent key is the only way to have no storage.
\<close>

record 'v registry =
  next_entity :: entity
  free_entities :: "entity list"
  component_storages :: "component_id \<rightharpoonup> 'v sparse_set"

definition registry_init :: "'v registry" where
  "registry_init = \<lparr>next_entity = 0, free_entities = [], component_storages = Map.empty\<rparr>"

definition get_storage :: "'v registry \<Rightarrow> component_id \<Rightarrow> 'v sparse_set \<times> 'v registry" where
  \<comment> \<open>the non-const overload: \<^verbatim>\<open>component_storages_[cid]\<close> inserts, then the storage is made\<close>
  "get_storage r c =
     (case component_storages r c of
        None \<Rightarrow> (sparse_set_init, r\<lparr>component_storages := (component_storages r)(c \<mapsto> sparse_set_init)\<rparr>)
      | Some s \<Rightarrow> (s, r))"

definition get_storage_const :: "'v registry \<Rightarrow> component_id \<Rightarrow> 'v sparse_set" where
  \<comment> \<open>the const overload: \<^verbatim>\<open>find\<close>, and the static empty set when there is no storage\<close>
  "get_storage_const r c =
     (case component_storages r c of None \<Rightarrow> sparse_set_init | Some s \<Rightarrow> s)"

definition new_entity :: "'v registry \<Rightarrow> entity \<times> 'v registry" where
  \<comment> \<open>\<^verbatim>\<open>push_back\<close> appends, so \<^verbatim>\<open>back()\<close> is \<open>last\<close> and \<^verbatim>\<open>pop_back()\<close> is \<open>butlast\<close>\<close>
  "new_entity r =
     (if free_entities r \<noteq> [] then
        (last (free_entities r), r\<lparr>free_entities := butlast (free_entities r)\<rparr>)
      else
        (let e = (next_entity r + 1) mod 2 ^ 64 in (e, r\<lparr>next_entity := e\<rparr>)))"

definition remove_entity :: "'v registry \<Rightarrow> entity \<Rightarrow> 'v registry" where
  \<comment> \<open>the loop erases \<open>e\<close> from every storage of the map; the storages are separate objects,
      so the order of the loop does not matter\<close>
  "remove_entity r e =
     r\<lparr>component_storages := (\<lambda>c. map_option (\<lambda>s. erase s e) (component_storages r c)),
       free_entities := free_entities r @ [e]\<rparr>"

definition has_component :: "'v registry \<Rightarrow> component_id \<Rightarrow> entity \<Rightarrow> bool" where
  "has_component r c e =
     (case component_storages r c of None \<Rightarrow> False | Some s \<Rightarrow> has s e)"

definition get_component :: "'v registry \<Rightarrow> component_id \<Rightarrow> entity \<Rightarrow> 'v \<times> 'v registry" where
  \<comment> \<open>the non-const overload; its precondition is \<open>has_component r c e\<close>\<close>
  "get_component r c e = (let (s, r') = get_storage r c in (at s e, r'))"

definition try_get_component :: "'v registry \<Rightarrow> component_id \<Rightarrow> entity \<Rightarrow> 'v option" where
  "try_get_component r c e =
     (case component_storages r c of
        None \<Rightarrow> None
      | Some s \<Rightarrow> if has s e then Some (at s e) else None)"

definition add_component ::
  "'v registry \<Rightarrow> component_id \<Rightarrow> entity \<Rightarrow> 'v arg \<Rightarrow> error option \<times> 'v registry" where
  \<comment> \<open>\<^verbatim>\<open>get_storage<T>()\<close> runs first, so the storage is registered even when \<^verbatim>\<open>emplace\<close>
      throws; the second component is the registry the caller is left with. The arguments
      are forwarded as they are: \<open>Payload_of e1\<close> is the call
      \<^verbatim>\<open>add_component<T>(e, get_component<T>(e1))\<close>\<close>
  "add_component r c e a =
     (let (s, r') = get_storage r c in
      case emplace s e a of
        Inl err \<Rightarrow> (Some err, r')
      | Inr s' \<Rightarrow> (None, r'\<lparr>component_storages := (component_storages r')(c \<mapsto> s')\<rparr>))"

definition remove_component :: "'v registry \<Rightarrow> component_id \<Rightarrow> entity \<Rightarrow> 'v registry" where
  "remove_component r c e =
     (let (s, r') = get_storage r c in
      r'\<lparr>component_storages := (component_storages r')(c \<mapsto> erase s e)\<rparr>)"

fun has_all :: "'v registry \<Rightarrow> component_id list \<Rightarrow> entity \<Rightarrow> bool" where
  \<comment> \<open>the fold \<^verbatim>\<open>(has_component<Ts>(e) && ...)\<close>\<close>
  "has_all r [] e = True"
| "has_all r (t # ts) e = (has_component r t e \<and> has_all r ts e)"

subsection \<open>Queries\<close>

text \<open>
  A visitor receives the entity and references to its payloads. Writing through such a
  reference changes a \<^verbatim>\<open>payload\<close> field only, which neither \<^verbatim>\<open>has\<close> nor the loop bounds
  read, so a query is modelled by the list of the visitor's invocations, in order, and the
  registry it leaves.
\<close>

definition each :: "'v registry \<Rightarrow> component_id \<Rightarrow> (entity \<times> 'v) list \<times> 'v registry" where
  "each r t =
     (let (s, r') = get_storage r t in
      (map (\<lambda>item. (index item, payload item)) (range_of s), r'))"

fun select_smallest ::
  "'v registry \<Rightarrow> component_id \<Rightarrow> component_id list
     \<Rightarrow> (component_id \<times> 'v registry) option" where
  \<comment> \<open>the fold of \<^verbatim>\<open>view\<close> over \<^verbatim>\<open>Ts...\<close>. The pointer \<^verbatim>\<open>smallest\<close> is declared as
      \<^verbatim>\<open>sparse_set<first_t>*\<close>, so \<^verbatim>\<open>smallest = &get_storage<Ts>()\<close> is ill-formed for a type
      other than \<^verbatim>\<open>first_t\<close>: such an instantiation does not compile (\<open>None\<close>). Where it
      compiles, the pointer is the id of the storage it points to.\<close>
  "select_smallest r smallest [] = Some (smallest, r)"
| "select_smallest r smallest (t # ts) =
     (if t \<noteq> smallest then None
      else
        (let (s, r') = get_storage r t in
         if size_of s < size_of (get_storage_const r' smallest)
         then select_smallest (snd (get_storage r' t)) t ts
         else select_smallest r' smallest ts))"

fun view_loop ::
  "'v registry \<Rightarrow> component_id list \<Rightarrow> 'v storage list \<Rightarrow> (entity \<times> 'v list) list" where
  \<comment> \<open>the loop over \<^verbatim>\<open>smallest->range()\<close>; every type of the list has its storage by
      now, so \<^verbatim>\<open>get_component\<close> leaves the registry as it is (lemmas
      \<open>view_registers_all\<close>, \<open>get_component_registered\<close>)\<close>
  "view_loop r ts [] = []"
| "view_loop r ts (item # items) =
     (let e = index item in
      if has_all r ts e
      then (e, map (\<lambda>t. fst (get_component r t e)) ts) # view_loop r ts items
      else view_loop r ts items)"

definition view ::
  "'v registry \<Rightarrow> component_id \<Rightarrow> component_id list
     \<Rightarrow> ((entity \<times> 'v list) list \<times> 'v registry) option" where
  \<comment> \<open>\<^verbatim>\<open>static_assert(sizeof...(Ts) >= 1)\<close>: the type list is \<open>first_t # rest\<close>. \<open>None\<close> is
      an instantiation \<^verbatim>\<open>view<first_t, rest...>\<close> that does not compile.\<close>
  "view r first_t rest =
     (case select_smallest (snd (get_storage r first_t)) first_t (first_t # rest) of
        None \<Rightarrow> None
      | Some (smallest, r') \<Rightarrow>
          Some (view_loop r' (first_t # rest) (range_of (get_storage_const r' smallest)), r'))"

definition visited :: "(entity \<times> 'a) list \<Rightarrow> entity list" where
  \<comment> \<open>the entities a query invoked its visitor on, in order\<close>
  "visited calls = map fst calls"

subsection \<open>Sequences of calls\<close>

datatype 'v call =
  New_entity
| Remove_entity entity
| Add_component component_id entity "'v arg"
| Remove_component component_id entity
| Get_component component_id entity
| Each component_id
| View component_id "component_id list"

text \<open>
  \<open>step\<close> is the registry after one call, and \<open>None\<close> where the call has undefined
  behaviour (a write past \<^verbatim>\<open>sparse_\<close>, a read through a dangling reference, or
  \<^verbatim>\<open>get_component\<close> without the component) or does not compile (a \<^verbatim>\<open>view\<close> over two
  different types). A capacity error is an exception the caller can catch: the sequence
  goes on from the registry the failed call left.
\<close>

definition step :: "'v registry \<Rightarrow> 'v call \<Rightarrow> 'v registry option" where
  "step r c =
     (case c of
        New_entity \<Rightarrow> Some (snd (new_entity r))
      | Remove_entity e \<Rightarrow> Some (remove_entity r e)
      | Add_component t e a \<Rightarrow>
          (case add_component r t e a of
             (None, r') \<Rightarrow> Some r'
           | (Some CapacityExceeded, r') \<Rightarrow> Some r'
           | (Some _, _) \<Rightarrow> None)
      | Remove_component t e \<Rightarrow> Some (remove_component r t e)
      | Get_component t e \<Rightarrow>
          (if has_component r t e then Some (snd (get_component r t e)) else None)
      | Each t \<Rightarrow> Some (snd (each r t))
      | View t ts \<Rightarrow> map_option snd (view r t ts))"

fun run :: "'v registry \<Rightarrow> 'v call list \<Rightarrow> 'v registry option" where
  "run r [] = Some r"
| "run r (c # cs) = (case step r c of None \<Rightarrow> None | Some r' \<Rightarrow> run r' cs)"

definition registry_inv :: "'v registry \<Rightarrow> bool" where
  "registry_inv r \<longleftrightarrow> (\<forall>c s. component_storages r c = Some s \<longrightarrow> ss_inv s)"

text \<open>
  \<open>new_entities k\<close> is \<open>k\<close> calls of \<^verbatim>\<open>new_entity()\<close> in a row, with the ids they return.
  \<open>removes_guarded r cs\<close> says that, along the calls \<open>cs\<close> from \<open>r\<close>, every
  \<^verbatim>\<open>remove_entity(e)\<close> is called while \<open>e\<close> is not on the free list.
\<close>

fun new_entities :: "nat \<Rightarrow> 'v registry \<Rightarrow> entity list \<times> 'v registry" where
  "new_entities 0 r = ([], r)"
| "new_entities (Suc k) r =
     (let (e, r1) = new_entity r; (es, r2) = new_entities k r1 in (e # es, r2))"

fun removes_guarded :: "'v registry \<Rightarrow> 'v call list \<Rightarrow> bool" where
  "removes_guarded r [] = True"
| "removes_guarded r (c # cs) =
     ((case c of Remove_entity e \<Rightarrow> e \<notin> set (free_entities r) | _ \<Rightarrow> True)
      \<and> (case step r c of None \<Rightarrow> True | Some r' \<Rightarrow> removes_guarded r' cs))"

text \<open>
  The first concrete scenario of the specification, with \<^verbatim>\<open>Position\<close> as component 1 and
  \<^verbatim>\<open>Velocity\<close> as component 2: three entities, \<^verbatim>\<open>Position\<close> on 1 and 2, \<^verbatim>\<open>Velocity\<close> on 2
  and 3. \<open>scenario1\<close> is the registry these calls build (lemma \<open>run_scenario1\<close>).
\<close>

definition scenario1_calls :: "nat call list" where
  "scenario1_calls =
     [New_entity, New_entity, New_entity,
      Add_component 1 1 (Value 10), Add_component 1 2 (Value 20),
      Add_component 2 2 (Value 21), Add_component 2 3 (Value 31)]"

definition scenario1 :: "nat registry" where
  "scenario1 =
     \<lparr>next_entity = 3, free_entities = [],
      component_storages =
        [1 \<mapsto> \<lparr>sparse = (replicate 1024 npos)[1 := 0, 2 := 1],
                dense = [\<lparr>index = 1, payload = 10\<rparr>, \<lparr>index = 2, payload = 20\<rparr>],
                dense_capacity = 2, nlive = 2\<rparr>,
         2 \<mapsto> \<lparr>sparse = (replicate 1024 npos)[2 := 0, 3 := 1],
                dense = [\<lparr>index = 2, payload = 21\<rparr>, \<lparr>index = 3, payload = 31\<rparr>],
                dense_capacity = 2, nlive = 2\<rparr>]\<rparr>"

text \<open>
  A registry with one component: two entities, and component 1 with payload 10 on entity 1.
  The dense vector of its storage is full (size 1, capacity 1). \<open>scenario_alias\<close> is the
  registry these calls build (lemma \<open>run_scenario_alias\<close>).
\<close>

definition scenario_alias :: "nat registry" where
  "scenario_alias =
     \<lparr>next_entity = 2, free_entities = [],
      component_storages =
        [1 \<mapsto> \<lparr>sparse = (replicate 1024 npos)[1 := 0],
                dense = [\<lparr>index = 1, payload = 10\<rparr>], dense_capacity = 1, nlive = 1\<rparr>]\<rparr>"

section \<open>Properties\<close>

text \<open>The defining equations that evaluate a call on a concrete registry.\<close>

lemmas eval_defs = step_def new_entity_def remove_entity_def add_component_def remove_component_def
  get_storage_def get_storage_const_def emplace_def grow_sparse_to_def has_def erase_def
  sparse_set_init_def registry_init_def npos_def max_capacity_def resize_def Let_def
  has_component_def get_component_def at_def range_of_def size_of_def visited_def
  arg_bound_def arg_value_def is_reference_def grown_capacity_def

subsection \<open>The sparse set keeps its invariant\<close>

lemma ss_inv_init: "ss_inv sparse_set_init"
  by (simp add: ss_inv_def sparse_set_init_def max_capacity_def)

lemma has_erase_self: "\<not> has (erase s e) e"
  by (auto simp: erase_def has_def Let_def)

lemma erase_absent: "\<not> has s e \<Longrightarrow> erase s e = s"
  by (simp add: erase_def)

lemma length_resize: "length (resize xs k v) = k"
  by (simp add: resize_def)

lemma nth_resize: "i < length xs \<Longrightarrow> length xs \<le> k \<Longrightarrow> resize xs k v ! i = xs ! i"
  by (simp add: resize_def nth_append)

lemma nth_resize_new: "length xs \<le> i \<Longrightarrow> i < k \<Longrightarrow> resize xs k v ! i = v"
  by (simp add: resize_def nth_append)

lemma grow_sparse_to_cases:
  assumes "grow_sparse_to s e = Inr g" and "length (sparse s) \<le> max_capacity"
  shows "dense g = dense s \<and> dense_capacity g = dense_capacity s \<and> nlive g = nlive s
       \<and> length (sparse s) \<le> length (sparse g)
       \<and> length (sparse g) \<le> max_capacity
       \<and> (\<forall>i < length (sparse s). sparse g ! i = sparse s ! i)
       \<and> (\<forall>i. length (sparse s) \<le> i \<longrightarrow> i < length (sparse g) \<longrightarrow> sparse g ! i = npos)"
  using assms
  by (auto simp: grow_sparse_to_def Let_def length_resize nth_resize nth_resize_new max_capacity_def split: if_splits)

lemma has_grow:
  assumes "grow_sparse_to s e = Inr g" and "length (sparse s) \<le> max_capacity"
  shows "has g x = has s x"
proof (cases "x < length (sparse s)")
  case True
  with grow_sparse_to_cases[OF assms] show ?thesis by (simp add: has_def)
next
  case False
  with grow_sparse_to_cases[OF assms] show ?thesis by (auto simp: has_def)
qed

lemma ss_inv_grow:
  assumes "grow_sparse_to s e = Inr g" and "ss_inv s"
  shows "ss_inv g"
proof -
  from assms(2) have L: "length (sparse s) \<le> max_capacity" by (simp add: ss_inv_def)
  from grow_sparse_to_cases[OF assms(1) L] assms(2) show ?thesis
    by (auto simp: ss_inv_def)
qed

lemma ss_inv_impl_has: "ss_inv s \<Longrightarrow> i < nlive s \<Longrightarrow> has s (index (dense s ! i))"
  by (auto simp: ss_inv_def has_def max_capacity_def npos_def)

lemma has_not_in_range:
  assumes "ss_inv s" "\<not> has s e" "i < nlive s" shows "index (dense s ! i) \<noteq> e"
  using ss_inv_impl_has[OF assms(1,3)] assms(2) by auto

lemma pigeon:
  assumes "ss_inv s" "\<not> has s e" "e < length (sparse s)"
  shows "nlive s < length (sparse s)"
proof -
  let ?f = "\<lambda>i. index (dense s ! i)"
  have inj: "inj_on ?f {..<nlive s}"
    using assms(1) by (auto simp: inj_on_def ss_inv_def) metis
  have sub: "?f ` {..<nlive s} \<subseteq> {..<length (sparse s)} - {e}"
    using assms(1) has_not_in_range[OF assms(1,2)] by (auto simp: ss_inv_def)
  have "card (?f ` {..<nlive s}) \<le> card ({..<length (sparse s)} - {e})"
    by (rule card_mono[OF _ sub]) simp
  then show ?thesis using assms(3) by (simp add: card_image[OF inj])
qed

lemma emplace_Inr:
  assumes "emplace s e a = Inr s'"
  obtains g where "arg_bound s a" "grow_sparse_to s e = Inr g" "has g e"
            "s' = overwrite g e (arg_value g a)"
        | g where "arg_bound s a" "grow_sparse_to s e = Inr g" "\<not> has g e"
            "e < length (sparse g)" "s' = append_new g e (arg_value g a)"
  using assms unfolding emplace_def overwrite_def append_new_def
  by (auto split: sum.splits if_splits)

lemma index_overwrite: "index (dense (overwrite g e v) ! i) = index (dense g ! i)"
  by (cases "sparse g ! e < length (dense g)") (auto simp: overwrite_def nth_list_update list_update_beyond)

lemma has_overwrite: "has (overwrite g e v) x = has g x"
  by (simp add: has_def index_overwrite) (simp add: overwrite_def)

lemma ss_inv_overwrite: "ss_inv g \<Longrightarrow> ss_inv (overwrite g e v)"
  by (simp add: ss_inv_def index_overwrite) (simp add: overwrite_def)

lemma dense_append_new:
  assumes "nlive g \<le> length (dense g)"
  shows "nlive g < length (dense (append_new g e v))"
    and "dense (append_new g e v) ! nlive g = \<lparr>index = e, payload = v\<rparr>"
    and "i < nlive g \<Longrightarrow> dense (append_new g e v) ! i = dense g ! i"
  using assms by (auto simp: append_new_def nth_append)

lemma ss_inv_append_new:
  assumes "ss_inv g" "\<not> has g e" "e < length (sparse g)"
  shows "ss_inv (append_new g e v)"
proof -
  from assms(1) have nd: "nlive g \<le> length (dense g)" by (simp add: ss_inv_def)
  note d = dense_append_new[OF nd]
  have n1: "nlive g < length (sparse g)" by (rule pigeon[OF assms])
  have sp: "sparse (append_new g e v) = (sparse g)[e := nlive g]"
    and nl: "nlive (append_new g e v) = nlive g + 1" by (simp_all add: append_new_def)
  have "index (dense (append_new g e v) ! i) < length (sparse g) \<and>
        (sparse g)[e := nlive g] ! (index (dense (append_new g e v) ! i)) = i" if "i < nlive g + 1" for i
  proof (cases "i = nlive g")
    case True
    then show ?thesis using d(2) assms(3) by simp
  next
    case False
    with that have i: "i < nlive g" by simp
    from has_not_in_range[OF assms(1,2) i] assms(1) i show ?thesis
      by (simp add: d(3) ss_inv_def)
  qed
  moreover have "Suc (nlive g) \<le> length (dense (append_new g e v))"
    using d(1) by (simp add: Suc_le_eq)
  moreover have "length (dense (append_new g e v)) \<le> dense_capacity (append_new g e v)"
    using assms(1) by (auto simp: append_new_def ss_inv_def grown_capacity_def)
  ultimately show ?thesis using n1 assms(1) by (simp add: ss_inv_def sp nl)
qed

lemma ss_inv_emplace:
  assumes "ss_inv s" "emplace s e v = Inr s'"
  shows "ss_inv s'"
  using assms(2)
proof (cases rule: emplace_Inr)
  case (1 g)
  then show ?thesis using ss_inv_grow[OF _ assms(1)] by (simp add: ss_inv_overwrite)
next
  case (2 g)
  then show ?thesis using ss_inv_grow[OF _ assms(1)] by (simp add: ss_inv_append_new)
qed

lemma has_append_new:
  assumes "ss_inv g" "\<not> has g e" "e < length (sparse g)"
  shows "has (append_new g e v) x \<longleftrightarrow> x = e \<or> has g x"
proof -
  from assms(1) have nd: "nlive g \<le> length (dense g)" by (simp add: ss_inv_def)
  note d = dense_append_new[OF nd]
  have n1: "nlive g < length (sparse g)" by (rule pigeon[OF assms])
  with assms(1) have np: "nlive g \<noteq> npos" by (simp add: ss_inv_def max_capacity_def npos_def)
  have sp: "sparse (append_new g e v) = (sparse g)[e := nlive g]"
    and nl: "nlive (append_new g e v) = nlive g + 1" by (simp_all add: append_new_def)
  show ?thesis
  proof (cases "x = e")
    case True
    then show ?thesis using assms(3) np d(2) by (simp add: has_def sp nl)
  next
    case False
    show ?thesis
    proof (cases "x < length (sparse g) \<and> sparse g ! x = nlive g")
      case True
      then have "\<not> has g x" by (simp add: has_def)
      moreover have "\<not> has (append_new g e v) x"
        using True False d(2) by (simp add: has_def sp nl)
      ultimately show ?thesis using False by simp
    next
      case F2: False
      then show ?thesis using False d(3)[of "sparse g ! x"]
        by (auto simp: has_def sp nl less_Suc_eq)
    qed
  qed
qed

lemma at_append_new:
  assumes "ss_inv g" "e < length (sparse g)"
  shows "at (append_new g e v) e = v"
proof -
  from assms(1) have nd: "nlive g \<le> length (dense g)" by (simp add: ss_inv_def)
  show ?thesis using dense_append_new(2)[OF nd] assms(2)
    by (simp add: at_def) (simp add: append_new_def)
qed

lemma at_overwrite:
  assumes "ss_inv g" "has g e"
  shows "at (overwrite g e v) e = v"
  using assms by (auto simp: at_def overwrite_def has_def ss_inv_def)

lemma erase_last:
  assumes "has s e" "sparse s ! e = nlive s - 1"
  shows "erase s e = s\<lparr>sparse := (sparse s)[e := npos], nlive := nlive s - 1\<rparr>"
  using assms by (simp add: erase_def Let_def)

lemma erase_swap:
  assumes "has s e" "sparse s ! e \<noteq> nlive s - 1" "nlive s \<le> length (dense s)"
  shows "erase s e = s\<lparr>sparse := (sparse s)[index (dense s ! (nlive s - 1)) := sparse s ! e, e := npos],
                        dense := (dense s)[sparse s ! e := dense s ! (nlive s - 1)],
                        nlive := nlive s - 1\<rparr>"
  using assms by (simp add: erase_def Let_def has_def)

lemma inv_inj:
  assumes "ss_inv s" "i < nlive s" "j < nlive s" "index (dense s ! i) = index (dense s ! j)"
  shows "i = j"
  using assms by (metis ss_inv_def)

lemma ss_inv_erase:
  assumes "ss_inv s"
  shows "ss_inv (erase s e)"
proof (cases "has s e")
  case False
  then show ?thesis using assms by (simp add: erase_def)
next
  case True
  define k where "k = sparse s ! e"
  define m where "m = nlive s - 1"
  from True have k: "k < nlive s" "index (dense s ! k) = e" "e < length (sparse s)"
    by (simp_all add: has_def k_def)
  then have m: "m < nlive s" "nlive s = Suc m" by (simp_all add: m_def)
  from assms have nd: "nlive s \<le> length (dense s)" by (simp add: ss_inv_def)
  have bij: "index (dense s ! i) < length (sparse s)" "sparse s ! (index (dense s ! i)) = i"
    if "i < nlive s" for i using assms that by (simp_all add: ss_inv_def)
  show ?thesis
  proof (cases "k = m")
    case km: True
    have E: "erase s e = s\<lparr>sparse := (sparse s)[e := npos], nlive := m\<rparr>"
      using erase_last[OF True] km by (simp add: k_def m_def)
    have "index (dense s ! i) < length (sparse s) \<and>
          (sparse s)[e := npos] ! (index (dense s ! i)) = i" if "i < m" for i
    proof -
      have i: "i < nlive s" using that m by simp
      have "index (dense s ! i) \<noteq> e"
        using inv_inj[OF assms i k(1)] that km k(2) by auto
      then show ?thesis using bij[OF i] by simp
    qed
    then show ?thesis using assms m nd by (simp add: E ss_inv_def)
  next
    case km: False
    define me where "me = index (dense s ! m)"
    have me: "me < length (sparse s)" "me \<noteq> e"
      using bij[OF m(1)] inv_inj[OF assms m(1) k(1)] km k(2) by (auto simp: me_def)
    have E: "erase s e = s\<lparr>sparse := (sparse s)[me := k, e := npos],
                        dense := (dense s)[k := dense s ! m],
                        nlive := m\<rparr>"
      using erase_swap[OF True _ nd] km by (simp add: k_def m_def me_def)
    have "index ((dense s)[k := dense s ! m] ! i) < length (sparse s) \<and>
          (sparse s)[me := k, e := npos] ! (index ((dense s)[k := dense s ! m] ! i)) = i"
      if "i < m" for i
    proof (cases "i = k")
      case True
      then show ?thesis using me k nd by (simp add: me_def[symmetric])
    next
      case False
      have i: "i < nlive s" using that m by simp
      have "index (dense s ! i) \<noteq> e" using inv_inj[OF assms i k(1)] False k(2) by auto
      moreover have "index (dense s ! i) \<noteq> me"
        using inv_inj[OF assms i m(1)] that by (auto simp: me_def)
      ultimately show ?thesis using False bij[OF i] by simp
    qed
    then show ?thesis using assms m nd by (simp add: E ss_inv_def)
  qed
qed

lemma has_erase:
  assumes "ss_inv s"
  shows "has (erase s e) x \<longleftrightarrow> x \<noteq> e \<and> has s x"
proof (cases "has s e")
  case False
  then show ?thesis by (auto simp: erase_def)
next
  case True
  define k where "k = sparse s ! e"
  define m where "m = nlive s - 1"
  from True have k: "k < nlive s" "index (dense s ! k) = e" "e < length (sparse s)"
    by (simp_all add: has_def k_def)
  then have m: "m < nlive s" "nlive s = Suc m" by (simp_all add: m_def)
  from assms have nd: "nlive s \<le> length (dense s)" by (simp add: ss_inv_def)
  have bij: "index (dense s ! i) < length (sparse s)" "sparse s ! (index (dense s ! i)) = i"
    if "i < nlive s" for i using assms that by (simp_all add: ss_inv_def)
  show ?thesis
  proof (cases "x = e")
    case True
    then show ?thesis using has_erase_self by simp
  next
    case xe: False
    show ?thesis
    proof (cases "k = m")
      case km: True
      have E: "erase s e = s\<lparr>sparse := (sparse s)[e := npos], nlive := m\<rparr>"
        using erase_last[OF True] km by (simp add: k_def m_def)
      have "sparse s ! x \<noteq> m" if "has s x"
        using that xe km k(2) by (auto simp: has_def k_def)
      then show ?thesis using xe m(2)
        by (auto simp: E has_def less_Suc_eq)
    next
      case km: False
      define me where "me = index (dense s ! m)"
      have me: "me < length (sparse s)" "me \<noteq> e" "sparse s ! me = m"
        using bij[OF m(1)] inv_inj[OF assms m(1) k(1)] km k(2) by (auto simp: me_def)
      have E: "erase s e = s\<lparr>sparse := (sparse s)[me := k, e := npos],
                        dense := (dense s)[k := dense s ! m],
                        nlive := m\<rparr>"
        using erase_swap[OF True _ nd] km by (simp add: k_def m_def me_def)
      show ?thesis
      proof (cases "x = me")
        case True
        have "has s me" using ss_inv_impl_has[OF assms m(1)] by (simp add: me_def)
        moreover have "has (erase s e) me"
          using me k m km nd assms
          by (simp add: E has_def me_def[symmetric] ss_inv_def max_capacity_def npos_def)
        ultimately show ?thesis using True xe by simp
      next
        case xm: False
        have a: "sparse s ! x \<noteq> k" "sparse s ! x \<noteq> m" if "has s x"
          using that xe xm k(2) me(3) by (auto simp: has_def me_def k_def)
        have b: "sparse s ! x \<noteq> k" if "x < length (sparse s)" "sparse s ! x < m" "index ((dense s)[k := dense s ! m] ! (sparse s ! x)) = x"
          using that xm nd k m by (auto simp: me_def nth_list_update split: if_splits)
        show ?thesis using xe xm m(2) a b
          by (auto simp: E has_def less_Suc_eq)
      qed
    qed
  qed
qed

lemma has_init: "\<not> has sparse_set_init e"
  by (simp add: has_def sparse_set_init_def)

lemma fst_get_storage: "fst (get_storage r c) = get_storage_const r c"
  by (simp add: get_storage_def get_storage_const_def split: option.splits)

lemma storages_get_storage:
  "component_storages (snd (get_storage r c)) t =
     (if t = c \<and> component_storages r c = None then Some sparse_set_init
      else component_storages r t)"
  by (simp add: get_storage_def split: option.splits)

lemma frame_get_storage:
  "next_entity (snd (get_storage r c)) = next_entity r"
  "free_entities (snd (get_storage r c)) = free_entities r"
  by (simp_all add: get_storage_def split: option.splits)

lemma get_storage_registered:
  "component_storages (snd (get_storage r c)) c = Some (get_storage_const r c)"
  by (simp add: get_storage_def get_storage_const_def split: option.splits)

lemma get_storage_twice: "snd (get_storage (snd (get_storage r c)) c) = snd (get_storage r c)"
  by (simp add: get_storage_def split: option.splits)

lemma const_get_storage: "get_storage_const (snd (get_storage r c)) t = get_storage_const r t"
  by (simp add: get_storage_const_def storages_get_storage split: option.splits)

lemma has_component_const: "has_component r t e = has (get_storage_const r t) e"
  by (simp add: has_component_def get_storage_const_def has_init split: option.splits)

lemma has_component_get_storage: "has_component (snd (get_storage r c)) t e = has_component r t e"
  by (simp add: has_component_const const_get_storage)

lemma registry_inv_const: "registry_inv r \<Longrightarrow> ss_inv (get_storage_const r t)"
  by (simp add: registry_inv_def get_storage_const_def ss_inv_init split: option.splits)

lemma registry_inv_get_storage: "registry_inv r \<Longrightarrow> registry_inv (snd (get_storage r c))"
  by (simp add: registry_inv_def storages_get_storage ss_inv_init split: if_splits)

lemma storages_each:
  "component_storages (snd (each r t)) c =
     (if c = t \<and> component_storages r c = None then Some sparse_set_init
      else component_storages r c)"
  by (auto simp add: each_def split_beta storages_get_storage)

lemma has_all_iff: "has_all r ts e \<longleftrightarrow> (\<forall>t \<in> set ts. has_component r t e)"
  by (induction ts) auto

lemma visited_view_loop:
  "visited (view_loop r ts items) = filter (has_all r ts) (map index items)"
  by (induction items) (simp_all add: visited_def Let_def)

lemma range_of_nth:
  assumes "nlive s \<le> length (dense s)"
  shows "length (range_of s) = nlive s" and "i < nlive s \<Longrightarrow> range_of s ! i = dense s ! i"
  using assms by (simp_all add: range_of_def)

lemma distinct_range_of:
  assumes "ss_inv s"
  shows "distinct (map index (range_of s))"
proof -
  from assms have nd: "nlive s \<le> length (dense s)" by (simp add: ss_inv_def)
  show ?thesis
    unfolding distinct_conv_nth
  proof (intro allI impI)
    fix i j
    assume "i < length (map index (range_of s))" "j < length (map index (range_of s))" "i \<noteq> j"
    then have ij: "i < nlive s" "j < nlive s" by (simp_all add: range_of_nth(1)[OF nd])
    with \<open>i \<noteq> j\<close> inv_inj[OF assms ij] show "map index (range_of s) ! i \<noteq> map index (range_of s) ! j"
      by (auto simp: range_of_nth[OF nd])
  qed
qed

lemma set_range_of:
  assumes "ss_inv s"
  shows "set (map index (range_of s)) = {e. has s e}"
proof -
  from assms have nd: "nlive s \<le> length (dense s)" by (simp add: ss_inv_def)
  show ?thesis
  proof (intro set_eqI iffI)
    fix e assume "e \<in> set (map index (range_of s))"
    then obtain i where "i < nlive s" "e = index (dense s ! i)"
      by (auto simp: in_set_conv_nth range_of_nth[OF nd])
    then show "e \<in> {e. has s e}" using ss_inv_impl_has[OF assms] by simp
  next
    fix e assume "e \<in> {e. has s e}"
    then have h: "sparse s ! e < nlive s" "index (dense s ! (sparse s ! e)) = e"
      by (simp_all add: has_def)
    then have "map index (range_of s) ! (sparse s ! e) = e" "sparse s ! e < length (map index (range_of s))"
      by (simp_all add: range_of_nth[OF nd])
    then show "e \<in> set (map index (range_of s))" by (metis nth_mem)
  qed
qed

lemma view_loop_intersection:
  assumes "registry_inv r" and "d \<in> set ts"
  shows "distinct (visited (view_loop r ts (range_of (get_storage_const r d))))"
    and "set (visited (view_loop r ts (range_of (get_storage_const r d)))) = {e. has_all r ts e}"
proof -
  have inv: "ss_inv (get_storage_const r d)" by (rule registry_inv_const[OF assms(1)])
  show "distinct (visited (view_loop r ts (range_of (get_storage_const r d))))"
    by (simp add: visited_view_loop distinct_range_of[OF inv])
  have "has_all r ts e \<Longrightarrow> has (get_storage_const r d) e" for e
    using assms(2) by (auto simp: has_all_iff has_component_const)
  then show "set (visited (view_loop r ts (range_of (get_storage_const r d)))) = {e. has_all r ts e}"
    by (auto simp: visited_view_loop set_range_of[OF inv] simp del: set_map)
qed

lemma snd_get_component: "snd (get_component r c e) = snd (get_storage r c)"
  by (simp add: get_component_def split_beta)

lemma fst_get_component: "fst (get_component r c e) = at (get_storage_const r c) e"
  by (simp add: get_component_def split_beta fst_get_storage)

lemma get_storage_present: "component_storages r c \<noteq> None \<Longrightarrow> snd (get_storage r c) = r"
  by (auto simp: get_storage_def)

lemma view_loop_cong:
  assumes "\<And>t. get_storage_const r1 t = get_storage_const r2 t"
  shows "view_loop r1 ts items = view_loop r2 ts items"
proof -
  have "has_all r1 ts e = has_all r2 ts e" for e
    by (simp add: has_all_iff has_component_const assms)
  then show ?thesis
    by (induction items) (simp_all add: Let_def fst_get_component assms)
qed

lemma select_smallest_eq:
  "select_smallest r a ts =
     (if list_all (\<lambda>t. t = a) ts
      then Some (a, if ts = [] then r else snd (get_storage r a))
      else None)"
proof (induction ts arbitrary: r)
  case Nil
  then show ?case by simp
next
  case (Cons t ts)
  show ?case
  proof (cases "t = a")
    case False
    then show ?thesis by simp
  next
    case True
    have "select_smallest r a (t # ts) = select_smallest (snd (get_storage r a)) a ts"
      using True by (simp add: split_beta get_storage_twice)
    also have "\<dots> = (if list_all (\<lambda>t. t = a) ts then Some (a, snd (get_storage r a)) else None)"
      by (simp add: Cons.IH get_storage_twice)
    finally show ?thesis using True by simp
  qed
qed

lemma view_eq:
  "view r a ts =
     (if list_all (\<lambda>t. t = a) ts
      then Some (view_loop r (a # ts) (range_of (get_storage_const r a)), snd (get_storage r a))
      else None)"
proof -
  have "view_loop (snd (get_storage r a)) (a # ts) items = view_loop r (a # ts) items" for items
    by (rule view_loop_cong) (simp add: const_get_storage)
  then show ?thesis
    by (simp add: view_def select_smallest_eq get_storage_twice const_get_storage
        del: select_smallest.simps)
qed

lemma step_view:
  "step r (View a ts) = (if list_all (\<lambda>t. t = a) ts then Some (snd (get_storage r a)) else None)"
  by (simp add: step_def view_eq)

lemma view_results_cong:
  assumes "\<And>t. get_storage_const r1 t = get_storage_const r2 t"
  shows "map_option fst (view r1 a ts) = map_option fst (view r2 a ts)"
  by (simp add: view_eq assms view_loop_cong[of r1 r2, OF assms])

lemma view_registers_all:
  assumes "view r a ts = Some (calls, r')" and "t \<in> set (a # ts)"
  shows "component_storages r' t \<noteq> None"
proof -
  from assms(1) have all: "list_all (\<lambda>t. t = a) ts" and r': "r' = snd (get_storage r a)"
    by (simp_all add: view_eq split: if_splits)
  from all assms(2) have "t = a" by (auto simp: list_all_iff)
  then show ?thesis by (simp add: r' storages_get_storage)
qed

lemma view_one_type:
  assumes "registry_inv r" and "view r a ts = Some (calls, r')"
  shows "distinct (visited calls)" and "set (visited calls) = {e. has_component r a e}"
proof -
  from assms(2) have all: "list_all (\<lambda>t. t = a) ts"
    and calls: "calls = view_loop r (a # ts) (range_of (get_storage_const r a))"
    by (simp_all add: view_eq split: if_splits)
  have a: "a \<in> set (a # ts)" by simp
  show "distinct (visited calls)"
    unfolding calls by (rule view_loop_intersection(1)[OF assms(1) a])
  from all have h: "has_all r (a # ts) e \<longleftrightarrow> has_component r a e" for e
    by (auto simp: has_all_iff list_all_iff)
  have "set (visited calls) = {e. has_all r (a # ts) e}"
    unfolding calls by (rule view_loop_intersection(2)[OF assms(1) a])
  also have "\<dots> = {e. has_component r a e}"
    by (simp only: h)
  finally show "set (visited calls) = {e. has_component r a e}" .
qed

lemma has_emplace:
  assumes "ss_inv s" "emplace s e a = Inr s'"
  shows "has s' x \<longleftrightarrow> x = e \<or> has s x"
proof -
  from assms(1) have L: "length (sparse s) \<le> max_capacity" by (simp add: ss_inv_def)
  from assms(2) show ?thesis
  proof (cases rule: emplace_Inr)
    case (1 g)
    then show ?thesis using has_grow[OF 1(2) L] by (auto simp: has_overwrite)
  next
    case (2 g)
    then show ?thesis
      using has_grow[OF 2(2) L] has_append_new[OF ss_inv_grow[OF 2(2) assms(1)] 2(3,4)] by simp
  qed
qed

lemma arg_value_grow:
  assumes "grow_sparse_to s e = Inr g" and "length (sparse s) \<le> max_capacity"
    and "arg_bound s a"
  shows "arg_value g a = arg_value s a"
proof (cases a)
  case (Value v)
  then show ?thesis by (simp add: arg_value_def)
next
  case (Payload_of e1)
  with assms(3) have "e1 < length (sparse s)" by (simp add: arg_bound_def has_def)
  with grow_sparse_to_cases[OF assms(1,2)] Payload_of show ?thesis
    by (simp add: arg_value_def at_def)
qed

lemma at_emplace:
  assumes "ss_inv s" "emplace s e a = Inr s'"
  shows "at s' e = arg_value s a"
proof -
  from assms(1) have L: "length (sparse s) \<le> max_capacity" by (simp add: ss_inv_def)
  from assms(2) show ?thesis
  proof (cases rule: emplace_Inr)
    case (1 g)
    then show ?thesis
      using at_overwrite[OF ss_inv_grow[OF 1(2) assms(1)] 1(3)] arg_value_grow[OF 1(2) L 1(1)]
      by simp
  next
    case (2 g)
    then show ?thesis
      using at_append_new[OF ss_inv_grow[OF 2(2) assms(1)] 2(4)] arg_value_grow[OF 2(2) L 2(1)]
      by simp
  qed
qed

lemma add_component_unfold:
  "add_component r c e v =
     (case emplace (get_storage_const r c) e v of
        Inl err \<Rightarrow> (Some err, snd (get_storage r c))
      | Inr s' \<Rightarrow> (None, (snd (get_storage r c))
            \<lparr>component_storages := (component_storages (snd (get_storage r c)))(c \<mapsto> s')\<rparr>))"
  by (simp add: add_component_def split_beta fst_get_storage)

lemma registry_inv_update:
  "registry_inv r \<Longrightarrow> ss_inv s \<Longrightarrow> registry_inv (r\<lparr>component_storages := (component_storages r)(c \<mapsto> s)\<rparr>)"
  by (simp add: registry_inv_def)

lemma has_component_update:
  "has_component (r\<lparr>component_storages := (component_storages r)(c \<mapsto> s)\<rparr>) t x =
     (if t = c then has s x else has_component r t x)"
  by (simp add: has_component_def)

lemma registry_inv_add_component:
  assumes "registry_inv r"
  shows "registry_inv (snd (add_component r c e v))"
proof (cases "emplace (get_storage_const r c) e v")
  case (Inl err)
  then show ?thesis by (simp add: add_component_unfold registry_inv_get_storage[OF assms])
next
  case (Inr s')
  have "ss_inv s'" by (rule ss_inv_emplace[OF registry_inv_const[OF assms] Inr])
  then show ?thesis
    using Inr by (simp add: add_component_unfold registry_inv_update registry_inv_get_storage[OF assms])
qed

lemma has_component_add_component:
  assumes "registry_inv r"
  shows "has_component (snd (add_component r c e v)) t x \<longleftrightarrow>
           (fst (add_component r c e v) = None \<and> t = c \<and> x = e) \<or> has_component r t x"
proof (cases "emplace (get_storage_const r c) e v")
  case (Inl err)
  then show ?thesis by (simp add: add_component_unfold has_component_get_storage)
next
  case (Inr s')
  have "has s' y \<longleftrightarrow> y = e \<or> has_component r c y" for y
    using has_emplace[OF registry_inv_const[OF assms] Inr] by (simp add: has_component_const)
  then show ?thesis
    using Inr by (auto simp: add_component_unfold has_component_update has_component_get_storage)
qed

lemma remove_component_unfold:
  "remove_component r c e =
     (snd (get_storage r c))\<lparr>component_storages :=
        (component_storages (snd (get_storage r c)))(c \<mapsto> erase (get_storage_const r c) e)\<rparr>"
  by (simp add: remove_component_def split_beta fst_get_storage)

lemma registry_inv_remove_component:
  "registry_inv r \<Longrightarrow> registry_inv (remove_component r c e)"
  by (simp add: remove_component_unfold registry_inv_update registry_inv_get_storage
      ss_inv_erase registry_inv_const)

lemma has_component_remove_component:
  assumes "registry_inv r"
  shows "has_component (remove_component r c e) t x \<longleftrightarrow> \<not> (t = c \<and> x = e) \<and> has_component r t x"
proof -
  have "has (erase (get_storage_const r c) e) x \<longleftrightarrow> x \<noteq> e \<and> has_component r c x"
    using has_erase[OF registry_inv_const[OF assms], of c e x] by (simp add: has_component_const)
  then show ?thesis
    by (auto simp: remove_component_unfold has_component_update has_component_get_storage)
qed

lemma registry_inv_remove_entity:
  "registry_inv r \<Longrightarrow> registry_inv (remove_entity r e)"
  by (auto simp: registry_inv_def remove_entity_def ss_inv_erase)

lemma has_component_remove_entity:
  assumes "registry_inv r"
  shows "has_component (remove_entity r e) t x \<longleftrightarrow> x \<noteq> e \<and> has_component r t x"
proof (cases "component_storages r t")
  case None
  then show ?thesis by (simp add: has_component_def remove_entity_def)
next
  case (Some s)
  with assms have "ss_inv s" by (simp add: registry_inv_def)
  from has_erase[OF this] Some show ?thesis by (simp add: has_component_def remove_entity_def)
qed

lemma storages_new_entity: "component_storages (snd (new_entity r)) = component_storages r"
  by (simp add: new_entity_def Let_def)

lemma registry_inv_new_entity: "registry_inv r \<Longrightarrow> registry_inv (snd (new_entity r))"
  by (simp add: registry_inv_def storages_new_entity)

lemma has_component_new_entity: "has_component (snd (new_entity r)) t x = has_component r t x"
  by (simp add: has_component_def storages_new_entity)

lemma snd_each: "snd (each r t) = snd (get_storage r t)"
  by (simp add: each_def split_beta)

lemma registry_inv_step:
  assumes "registry_inv r" "step r c = Some r'"
  shows "registry_inv r'"
proof (cases c)
  case (Add_component t e v)
  with assms(2) have "r' = snd (add_component r t e v)"
    by (auto simp: step_def split: prod.splits option.splits error.splits)
  then show ?thesis by (simp add: registry_inv_add_component[OF assms(1)])
next
  case (View t ts)
  with assms show ?thesis
    by (auto simp: step_view registry_inv_get_storage split: if_splits)
qed (use assms in \<open>auto simp: step_def registry_inv_new_entity registry_inv_remove_entity
      registry_inv_remove_component snd_get_component snd_each registry_inv_get_storage
      split: if_splits\<close>)

lemma registry_inv_run:
  "registry_inv r \<Longrightarrow> run r cs = Some r' \<Longrightarrow> registry_inv r'"
  by (induction cs arbitrary: r) (auto split: option.splits dest: registry_inv_step)

lemma registry_inv_init: "registry_inv registry_init"
  by (simp add: registry_inv_def registry_init_def)

lemma absent_step:
  assumes "registry_inv r" "step r c = Some r'" "\<not> has_component r t e"
    and "\<And>v. c \<noteq> Add_component t e v"
  shows "\<not> has_component r' t e"
proof (cases c)
  case (Add_component t' e' v)
  with assms(2) have r': "r' = snd (add_component r t' e' v)"
    by (auto simp: step_def split: prod.splits option.splits error.splits)
  from assms(4) Add_component have "\<not> (t = t' \<and> e = e')" by auto
  then show ?thesis
    using assms(3) by (auto simp: r' has_component_add_component[OF assms(1)])
next
  case (View a ts)
  with assms show ?thesis
    by (auto simp: step_view has_component_get_storage split: if_splits)
qed (use assms in \<open>auto simp: step_def has_component_new_entity has_component_remove_entity
      has_component_remove_component snd_get_component snd_each has_component_get_storage
      split: if_splits\<close>)

lemma absent_run:
  assumes "registry_inv r" "run r cs = Some r'" "\<not> has_component r t e"
    and "\<And>v. Add_component t e v \<notin> set cs"
  shows "\<not> has_component r' t e"
  using assms
proof (induction cs arbitrary: r)
  case Nil
  then show ?case by simp
next
  case (Cons c cs)
  from Cons.prems(2) obtain r1 where s: "step r c = Some r1" and rest: "run r1 cs = Some r'"
    by (auto split: option.splits)
  have "\<not> has_component r1 t e"
    using absent_step[OF Cons.prems(1) s Cons.prems(3)] Cons.prems(4) by auto
  then show ?case
    using Cons.IH[OF registry_inv_step[OF Cons.prems(1) s] rest] Cons.prems(4) by auto
qed

lemma frame_add_component:
  "next_entity (snd (add_component r c e v)) = next_entity r"
  "free_entities (snd (add_component r c e v)) = free_entities r"
  by (simp_all add: add_component_unfold frame_get_storage split: sum.splits)

lemma frame_remove_component:
  "next_entity (remove_component r c e) = next_entity r"
  "free_entities (remove_component r c e) = free_entities r"
  by (simp_all add: remove_component_unfold frame_get_storage)

lemma free_entities_step:
  assumes "step r c = Some r'"
  shows "free_entities r' =
     (case c of
        New_entity \<Rightarrow> butlast (free_entities r)
      | Remove_entity e \<Rightarrow> free_entities r @ [e]
      | _ \<Rightarrow> free_entities r)"
proof (cases c)
  case New_entity
  with assms show ?thesis by (auto simp: step_def new_entity_def Let_def)
next
  case (Remove_entity e)
  with assms show ?thesis by (auto simp: step_def remove_entity_def)
next
  case (Add_component t e v)
  with assms have "r' = snd (add_component r t e v)"
    by (auto simp: step_def split: prod.splits option.splits error.splits)
  then show ?thesis using Add_component by (simp add: frame_add_component)
next
  case (Remove_component t e)
  with assms show ?thesis by (auto simp: step_def frame_remove_component)
next
  case (Get_component t e)
  with assms show ?thesis
    by (auto simp: step_def snd_get_component frame_get_storage split: if_splits)
next
  case (Each t)
  with assms show ?thesis by (auto simp: step_def snd_each frame_get_storage)
next
  case (View t ts)
  with assms show ?thesis
    by (auto simp: step_view frame_get_storage split: if_splits)
qed

lemma distinct_step:
  assumes "distinct (free_entities r)" "step r c = Some r'"
    and "\<And>e. c = Remove_entity e \<Longrightarrow> e \<notin> set (free_entities r)"
  shows "distinct (free_entities r')"
  using assms(1,3) unfolding free_entities_step[OF assms(2)]
  by (cases c) (auto simp: distinct_butlast)

lemma distinct_run_guarded:
  assumes "distinct (free_entities r)" "removes_guarded r cs" "run r cs = Some r'"
  shows "distinct (free_entities r')"
  using assms
proof (induction cs arbitrary: r)
  case Nil
  then show ?case by simp
next
  case (Cons c cs)
  from Cons.prems(3) obtain r1 where s: "step r c = Some r1" and rest: "run r1 cs = Some r'"
    by (auto split: option.splits)
  from Cons.prems(2) s have g: "removes_guarded r1 cs"
    and ok: "\<And>e. c = Remove_entity e \<Longrightarrow> e \<notin> set (free_entities r)"
    by auto
  show ?case
    by (rule Cons.IH[OF distinct_step[OF Cons.prems(1) s ok] g rest])
qed

lemma removes_guarded_take: "removes_guarded r cs \<Longrightarrow> removes_guarded r (take k cs)"
proof (induction cs arbitrary: r k)
  case Nil
  then show ?case by simp
next
  case (Cons c cs)
  show ?case
  proof (cases k)
    case 0
    then show ?thesis by simp
  next
    case (Suc k')
    with Cons show ?thesis by (auto split: option.splits)
  qed
qed

lemma new_entities_ids:
  assumes "distinct (free_entities r)" "\<forall>x \<in> set (free_entities r). x \<le> next_entity r"
    and "next_entity r + k < 2 ^ 64"
  shows "distinct (fst (new_entities k r))
       \<and> set (fst (new_entities k r)) \<subseteq> set (free_entities r) \<union> {next_entity r + 1 .. next_entity r + k}"
  using assms
proof (induction k arbitrary: r)
  case 0
  then show ?case by simp
next
  case (Suc k)
  show ?case
  proof (cases "free_entities r = []")
    case True
    define r1 where "r1 = r\<lparr>next_entity := next_entity r + 1\<rparr>"
    have ne: "new_entity r = (next_entity r + 1, r1)"
      using True Suc.prems(3) by (simp add: new_entity_def Let_def r1_def)
    have "distinct (fst (new_entities k r1))
       \<and> set (fst (new_entities k r1)) \<subseteq> set (free_entities r1) \<union> {next_entity r1 + 1 .. next_entity r1 + k}"
      using Suc.prems(3) True by (intro Suc.IH) (simp_all add: r1_def)
    then show ?thesis
      using True by (auto simp: ne split_beta r1_def)
  next
    case False
    define r1 where "r1 = r\<lparr>free_entities := butlast (free_entities r)\<rparr>"
    have ne: "new_entity r = (last (free_entities r), r1)"
      using False by (simp add: new_entity_def r1_def)
    have "distinct (butlast (free_entities r) @ [last (free_entities r)])"
      using False Suc.prems(1) by simp
    then have l: "last (free_entities r) \<notin> set (butlast (free_entities r))"
      by simp
    have l2: "last (free_entities r) \<le> next_entity r"
      using False Suc.prems(2) by simp
    have "distinct (fst (new_entities k r1))
       \<and> set (fst (new_entities k r1)) \<subseteq> set (free_entities r1) \<union> {next_entity r1 + 1 .. next_entity r1 + k}"
      using Suc.prems by (intro Suc.IH) (auto simp: r1_def distinct_butlast dest: in_set_butlastD)
    then show ?thesis
      using l l2 False by (auto simp: ne split_beta r1_def dest: in_set_butlastD)
  qed
qed

lemma Suc_Suc_0: "Suc (Suc 0) = 2"
  by simp

lemma run_scenario1: "run registry_init scenario1_calls = Some scenario1"
  by (simp add: scenario1_calls_def scenario1_def eval_defs Suc_Suc_0)

lemma registry_inv_scenario1: "registry_inv scenario1"
  using registry_inv_run[OF registry_inv_init run_scenario1] .

lemma fst_each:
  "fst (each r t) = map (\<lambda>item. (index item, payload item)) (range_of (get_storage_const r t))"
  by (simp add: each_def split_beta fst_get_storage)

lemma try_get_component_const:
  "try_get_component r t e =
     (if has (get_storage_const r t) e then Some (at (get_storage_const r t) e) else None)"
  by (simp add: try_get_component_def get_storage_const_def has_init split: option.splits)

lemma add_component_failed:
  assumes "fst (add_component r c e v) = Some err"
  shows "snd (add_component r c e v) = snd (get_storage r c)"
  using assms by (simp add: add_component_unfold split: sum.splits)

lemma storages_add_component_ok:
  assumes "add_component r c e v = (None, r')"
  obtains s' where "emplace (get_storage_const r c) e v = Inr s'"
    and "get_storage_const r' c = s'"
  using assms
  by (auto simp: add_component_unfold get_storage_const_def split: sum.splits)

lemma capacity_error_iff:
  "emplace s e a = Inl CapacityExceeded \<longleftrightarrow>
     arg_bound s a
     \<and> length (sparse s) \<le> e
     \<and> max_capacity < max (length (sparse s) * 2 mod 2 ^ 64) ((e + 1) mod 2 ^ 64)"
proof -
  have g: "grow_sparse_to s e = Inl CapacityExceeded \<longleftrightarrow>
     length (sparse s) \<le> e
     \<and> max_capacity < max (length (sparse s) * 2 mod 2 ^ 64) ((e + 1) mod 2 ^ 64)"
    by (simp add: grow_sparse_to_def Let_def)
  have "emplace s e a = Inl CapacityExceeded \<longleftrightarrow>
     arg_bound s a \<and> grow_sparse_to s e = Inl CapacityExceeded"
    by (cases "grow_sparse_to s e") (simp_all add: emplace_def)
  then show ?thesis by (simp only: g)
qed

lemma emplace_inside_succeeds:
  assumes "e < length (sparse s)"
  shows "\<exists>s'. emplace s e (Value v) = Inr s'"
  using assms by (simp add: emplace_def grow_sparse_to_def arg_bound_def is_reference_def)

lemma get_component_registered:
  "component_storages r t \<noteq> None \<Longrightarrow> snd (get_component r t e) = r"
  by (simp add: snd_get_component get_storage_present)

lemma reachable_registry_inv:
  "run registry_init cs = Some r \<Longrightarrow> registry_inv r"
  by (rule registry_inv_run[OF registry_inv_init])

lemma run_scenario_alias:
  "run registry_init [New_entity, New_entity, Add_component 1 1 (Value 10)] = Some scenario_alias"
  by (simp add: scenario_alias_def eval_defs)

lemma add_component_then_get:
  assumes "registry_inv r" and "add_component r c e a = (None, r')"
  shows "has_component r' c e"
    and "fst (get_component r' c e) = arg_value (get_storage_const r c) a"
proof -
  from assms(2) obtain s' where em: "emplace (get_storage_const r c) e a = Inr s'"
    and st: "get_storage_const r' c = s'"
    by (rule storages_add_component_ok)
  have inv: "ss_inv (get_storage_const r c)"
    by (rule registry_inv_const[OF assms(1)])
  have "has s' e" using has_emplace[OF inv em, of e] by simp
  then show "has_component r' c e" by (simp add: has_component_const st)
  show "fst (get_component r' c e) = arg_value (get_storage_const r c) a"
    using at_emplace[OF inv em] by (simp add: fst_get_component st)
qed

section \<open>The claims\<close>

text \<open>
  C1. The claim: \<^verbatim>\<open>view<A,B>(f)\<close> invokes the visitor once for each entity that the storages
  of \<open>A\<close> and \<open>B\<close> both hold, and for no other. The code has no such call for two
  different types: \<^verbatim>\<open>smallest\<close> is a \<^verbatim>\<open>sparse_set<first_t>*\<close>, and the fold assigns
  \<^verbatim>\<open>&get_storage<Ts>()\<close> to it for every type of the list, so \<^verbatim>\<open>view<A,B>\<close> compiles only
  when \<open>B\<close> is \<open>A\<close>. In the first scenario of the specification entity 2 has \<^verbatim>\<open>Position\<close>
  and \<^verbatim>\<open>Velocity\<close>, and \<^verbatim>\<open>view<Position,Velocity>\<close> visits nothing, because it is not a
  program.
\<close>

theorem view_of_two_types_ill_formed:
  "(view r a [b] = None \<longleftrightarrow> a \<noteq> b)
   \<and> has_component scenario1 1 2
   \<and> has_component scenario1 2 2
   \<and> view scenario1 1 [2] = None"
proof -
  have "view r a [b] = None \<longleftrightarrow> a \<noteq> b"
    by (simp add: view_eq)
  moreover have "has_component scenario1 1 2" "has_component scenario1 2 2"
    by (simp_all add: scenario1_def eval_defs)
  moreover have "view scenario1 1 [2] = None"
    by (simp add: view_eq)
  ultimately show ?thesis by blast
qed

text \<open>
  C2. The claim: the loop of \<^verbatim>\<open>view<T1..Tn>(f)\<close> runs over a storage of least size among
  those of \<open>T1..Tn\<close>, the one named first among equals. The fold that should choose it
  assigns to a pointer of type \<^verbatim>\<open>sparse_set<first_t>*\<close>, so it compiles only for a list that
  repeats \<^verbatim>\<open>first_t\<close>, and then the driver is the storage of \<^verbatim>\<open>first_t\<close>: there is no choice
  among several storages. In the first scenario component 3 has no entity and \<^verbatim>\<open>Position\<close>
  has two, and \<^verbatim>\<open>view\<close> over \<^verbatim>\<open>Position\<close> and component 3 does not compile.
\<close>

theorem view_driver_is_first_type:
  "map_option fst (select_smallest r a ts) = (if list_all (\<lambda>t. t = a) ts then Some a else None)
   \<and> size_of (get_storage_const scenario1 3) < size_of (get_storage_const scenario1 1)
   \<and> view scenario1 1 [3] = None"
proof -
  have "map_option fst (select_smallest r a ts)
      = (if list_all (\<lambda>t. t = a) ts then Some a else None)"
    by (simp add: select_smallest_eq)
  moreover have "size_of (get_storage_const scenario1 3) < size_of (get_storage_const scenario1 1)"
    by (simp add: scenario1_def eval_defs)
  moreover have "view scenario1 1 [3] = None"
    by (simp add: view_eq)
  ultimately show ?thesis by blast
qed

text \<open>
  C3. The claim: \<^verbatim>\<open>emplace(e, v)\<close> signals a capacity error exactly when index \<open>e\<close> does not
  fit within the maximum capacity, whatever the current size of the sparse array. The code
  tests the doubled size, not the index: a fresh set that has grown to 600000 slots (by
  \<^verbatim>\<open>emplace(599999, v)\<close>) throws for index 700000, which is below \<open>max_capacity\<close>, with
  the message "Entity index exceeds maximum sparse capacity". In the other direction index
  \<open>2 ^ 64 - 1\<close> makes \<^verbatim>\<open>index + 1\<close> wrap to 0, no error is signalled, and
  \<^verbatim>\<open>sparse_[index]\<close> is written out of bounds.
\<close>

theorem emplace_capacity_error_below_maximum:
  "(\<exists>s. emplace (sparse_set_init :: 'v sparse_set) 599999 (Value v) = Inr s
        \<and> length (sparse s) = 600000
        \<and> 700000 < max_capacity
        \<and> emplace s 700000 (Value w) = Inl CapacityExceeded)
   \<and> emplace (sparse_set_init :: 'v sparse_set) 18446744073709551615 (Value v) = Inl OutOfBounds"
proof -
  have grown: "emplace (sparse_set_init :: 'v sparse_set) 599999 (Value v) =
      Inr \<lparr>sparse = (replicate 1024 npos @ replicate 598976 npos)[599999 := 0],
           dense = [\<lparr>index = 599999, payload = v\<rparr>], dense_capacity = 1, nlive = 1\<rparr>"
    by (simp add: emplace_def grow_sparse_to_def sparse_set_init_def has_def resize_def
        max_capacity_def Let_def nth_append arg_bound_def arg_value_def is_reference_def
        grown_capacity_def)
  have thrown: "emplace \<lparr>sparse = (replicate 1024 npos @ replicate 598976 npos)[599999 := 0],
           dense = [\<lparr>index = 599999, payload = v\<rparr>], dense_capacity = 1, nlive = 1\<rparr>
        700000 (Value w) = Inl CapacityExceeded"
    by (simp add: emplace_def grow_sparse_to_def max_capacity_def Let_def arg_bound_def)
  have wrapped: "emplace (sparse_set_init :: 'v sparse_set) 18446744073709551615 (Value v)
      = Inl OutOfBounds"
    by (simp add: emplace_def grow_sparse_to_def sparse_set_init_def has_def resize_def
        max_capacity_def Let_def arg_bound_def is_reference_def)
  show ?thesis
    using grown thrown wrapped by (simp add: max_capacity_def)
qed

text \<open>
  C4. The claim: a call \<^verbatim>\<open>add_component<T>(e, v)\<close> that fails with the capacity error leaves
  the registry as it was. \<^verbatim>\<open>get_storage<T>()\<close> has run before \<^verbatim>\<open>emplace\<close> throws, so a type
  without a storage has an empty one afterwards: on a fresh registry the failed call
  changes the storage map.
\<close>

theorem add_component_failure_registers_storage:
  "fst (add_component (registry_init :: nat registry) 1 2000000 (Value 0)) = Some CapacityExceeded
   \<and> component_storages (registry_init :: nat registry) 1 = None
   \<and> component_storages (snd (add_component (registry_init :: nat registry) 1 2000000 (Value 0))) 1
       = Some sparse_set_init
   \<and> snd (add_component (registry_init :: nat registry) 1 2000000 (Value 0)) \<noteq> registry_init"
proof -
  have f: "fst (add_component (registry_init :: nat registry) 1 2000000 (Value 0)) = Some CapacityExceeded"
    by (simp add: eval_defs)
  have b: "component_storages (registry_init :: nat registry) 1 = None"
    by (simp add: registry_init_def)
  have a: "component_storages (snd (add_component (registry_init :: nat registry) 1 2000000 (Value 0))) 1
       = Some sparse_set_init"
    unfolding add_component_failed[OF f] using b by (simp add: storages_get_storage)
  from a b have "snd (add_component (registry_init :: nat registry) 1 2000000 (Value 0)) \<noteq> registry_init"
    by auto
  with f a b show ?thesis by blast
qed

text \<open>
  C4, as the code has it. After a call \<^verbatim>\<open>add_component<T>(e, v)\<close> that failed with the
  capacity error, the id counter and the free list are as before, every storage the
  registry had is as before, and the only change is an empty storage for \<open>T\<close> when \<open>T\<close> had
  none (the registry is the same when \<open>T\<close> had one). Every answer of \<^verbatim>\<open>has_component\<close> and
  \<^verbatim>\<open>try_get_component\<close> and every sequence of visitor calls of \<^verbatim>\<open>each\<close> and \<^verbatim>\<open>view\<close> is as
  before.
\<close>

theorem add_component_capacity_failure:
  assumes "add_component r c e a = (Some CapacityExceeded, r')"
  shows "next_entity r' = next_entity r
       \<and> free_entities r' = free_entities r
       \<and> (\<forall>t. component_storages r' t =
              (if t = c \<and> component_storages r c = None then Some sparse_set_init
               else component_storages r t))
       \<and> (component_storages r c \<noteq> None \<longrightarrow> r' = r)
       \<and> (\<forall>t x. has_component r' t x = has_component r t x)
       \<and> (\<forall>t x. try_get_component r' t x = try_get_component r t x)
       \<and> (\<forall>t. fst (each r' t) = fst (each r t))
       \<and> (\<forall>t ts. map_option fst (view r' t ts) = map_option fst (view r t ts))"
proof -
  from assms have "fst (add_component r c e a) = Some CapacityExceeded"
    and "r' = snd (add_component r c e a)" by simp_all
  then have r': "r' = snd (get_storage r c)"
    by (simp add: add_component_failed)
  have same: "get_storage_const r' t = get_storage_const r t" for t
    by (simp add: r' const_get_storage)
  have "next_entity r' = next_entity r" "free_entities r' = free_entities r"
    by (simp_all add: r' frame_get_storage)
  moreover have "\<forall>t. component_storages r' t =
              (if t = c \<and> component_storages r c = None then Some sparse_set_init
               else component_storages r t)"
    by (simp add: r' storages_get_storage)
  moreover have "component_storages r c \<noteq> None \<longrightarrow> r' = r"
    by (simp add: r' get_storage_present)
  moreover have "\<forall>t x. has_component r' t x = has_component r t x"
    by (simp add: has_component_const same)
  moreover have "\<forall>t x. try_get_component r' t x = try_get_component r t x"
    by (simp add: try_get_component_const same)
  moreover have "\<forall>t. fst (each r' t) = fst (each r t)"
    by (simp add: fst_each same)
  moreover have "\<forall>t ts. map_option fst (view r' t ts) = map_option fst (view r t ts)"
    using view_results_cong[of r' r, OF same] by blast
  ultimately show ?thesis by blast
qed

theorem add_component_capacity_failure_witness:
  "add_component scenario1 1 2000000 (Value 5) = (Some CapacityExceeded, scenario1)
   \<and> fst (add_component scenario1 3 2000000 (Value 5)) = Some CapacityExceeded
   \<and> free_entities (snd (add_component scenario1 3 2000000 (Value 5))) = free_entities scenario1
   \<and> component_storages (snd (add_component scenario1 3 2000000 (Value 5))) 1
       = component_storages scenario1 1
   \<and> component_storages (snd (add_component scenario1 3 2000000 (Value 5))) 3 = Some sparse_set_init
   \<and> map_option fst (view (snd (add_component scenario1 3 2000000 (Value 5))) 1 [1])
       = map_option fst (view scenario1 1 [1])"
proof -
  have f1: "fst (add_component scenario1 1 2000000 (Value 5)) = Some CapacityExceeded"
    by (simp add: scenario1_def eval_defs)
  have f3: "fst (add_component scenario1 3 2000000 (Value 5)) = Some CapacityExceeded"
    by (simp add: scenario1_def eval_defs)
  have p1: "component_storages scenario1 1 \<noteq> None" and p3: "component_storages scenario1 3 = None"
    by (simp_all add: scenario1_def)
  from f1 have "add_component scenario1 1 2000000 (Value 5)
      = (Some CapacityExceeded, snd (add_component scenario1 1 2000000 (Value 5)))"
    by (simp add: prod_eq_iff)
  from add_component_capacity_failure [OF this] p1
  have "snd (add_component scenario1 1 2000000 (Value 5)) = scenario1" by blast
  with f1 have one: "add_component scenario1 1 2000000 (Value 5) = (Some CapacityExceeded, scenario1)"
    by (simp add: prod_eq_iff)
  from f3 have "add_component scenario1 3 2000000 (Value 5)
      = (Some CapacityExceeded, snd (add_component scenario1 3 2000000 (Value 5)))"
    by (simp add: prod_eq_iff)
  note three = add_component_capacity_failure [OF this]
  from three have "free_entities (snd (add_component scenario1 3 2000000 (Value 5))) = free_entities scenario1"
    by blast
  moreover from three p3 have "component_storages (snd (add_component scenario1 3 2000000 (Value 5))) 1
       = component_storages scenario1 1"
    "component_storages (snd (add_component scenario1 3 2000000 (Value 5))) 3 = Some sparse_set_init"
    by simp_all
  moreover from three
  have "map_option fst (view (snd (add_component scenario1 3 2000000 (Value 5))) 1 [1])
       = map_option fst (view scenario1 1 [1])"
    by blast
  ultimately show ?thesis using one f3 by blast
qed

text \<open>
  C5. The claim: \<^verbatim>\<open>remove_entity\<close> never puts an id on the free list that is already
  there. It has no such guard: after \<^verbatim>\<open>new_entity()\<close> has returned 1, two calls
  \<^verbatim>\<open>remove_entity(1)\<close> leave the free list \<open>[1, 1]\<close>.
\<close>

theorem remove_entity_twice_duplicates:
  "run (registry_init :: nat registry) [New_entity, Remove_entity 1, Remove_entity 1]
     = Some \<lparr>next_entity = 1, free_entities = [1, 1], component_storages = Map.empty\<rparr>
   \<and> \<not> distinct (free_entities
         \<lparr>next_entity = 1, free_entities = [1, 1], component_storages = Map.empty :: component_id \<rightharpoonup> nat sparse_set\<rparr>)"
  by (simp add: eval_defs)

text \<open>
  C5, as the code has it. \<^verbatim>\<open>remove_entity(e)\<close> appends \<open>e\<close> to the free list without a
  test. Along every sequence of calls in which \<^verbatim>\<open>remove_entity(e)\<close> is only called while
  \<open>e\<close> is not on the free list, a free list without duplicates stays without duplicates
  after every call.
\<close>

theorem free_list_distinct_when_removes_guarded:
  assumes "distinct (free_entities r)" and "removes_guarded r cs"
    and "run r (take k cs) = Some r'"
  shows "distinct (free_entities r')
       \<and> free_entities (remove_entity r' e) = free_entities r' @ [e]"
proof
  have "removes_guarded r (take k cs)"
    by (rule removes_guarded_take[OF assms(2)])
  then show "distinct (free_entities r')"
    by (rule distinct_run_guarded[OF assms(1) _ assms(3)])
next
  show "free_entities (remove_entity r' e) = free_entities r' @ [e]"
    by (simp add: remove_entity_def)
qed

theorem free_list_distinct_when_removes_guarded_witness:
  "distinct (free_entities (registry_init :: nat registry))
   \<and> removes_guarded (registry_init :: nat registry)
        [New_entity, New_entity, Remove_entity 1, Remove_entity 2, New_entity, Remove_entity 2]
   \<and> run (registry_init :: nat registry)
        (take 4 [New_entity, New_entity, Remove_entity 1, Remove_entity 2, New_entity, Remove_entity 2])
       = Some \<lparr>next_entity = 2, free_entities = [1, 2], component_storages = Map.empty\<rparr>
   \<and> distinct (free_entities
         \<lparr>next_entity = 2, free_entities = [1, 2], component_storages = Map.empty :: component_id \<rightharpoonup> nat sparse_set\<rparr>)"
proof -
  let ?cs = "[New_entity, New_entity, Remove_entity 1, Remove_entity 2, New_entity, Remove_entity 2] :: nat call list"
  let ?r' = "\<lparr>next_entity = 2, free_entities = [1, 2], component_storages = Map.empty :: component_id \<rightharpoonup> nat sparse_set\<rparr>"
  have d: "distinct (free_entities (registry_init :: nat registry))"
    by (simp add: registry_init_def)
  have g: "removes_guarded (registry_init :: nat registry) ?cs"
    by (simp add: eval_defs)
  have r: "run (registry_init :: nat registry) (take 4 ?cs) = Some ?r'"
    by (simp add: eval_defs)
  from free_list_distinct_when_removes_guarded [OF d g r]
  have "distinct (free_entities ?r')" by blast
  with d g r show ?thesis by blast
qed

text \<open>
  C6. The claim: from every reachable registry, calls of \<^verbatim>\<open>new_entity()\<close> with no
  \<^verbatim>\<open>remove_entity\<close> between them return pairwise distinct ids. The registry reached by two
  \<^verbatim>\<open>new_entity()\<close> and two \<^verbatim>\<open>remove_entity(2)\<close> has 2 on its free list twice, and the next
  two calls of \<^verbatim>\<open>new_entity()\<close> both return 2.
\<close>

theorem new_entity_returns_id_twice:
  "run (registry_init :: nat registry) [New_entity, New_entity, Remove_entity 2, Remove_entity 2]
     = Some \<lparr>next_entity = 2, free_entities = [2, 2], component_storages = Map.empty\<rparr>
   \<and> fst (new_entities 2
        \<lparr>next_entity = 2, free_entities = [2, 2], component_storages = Map.empty :: component_id \<rightharpoonup> nat sparse_set\<rparr>)
       = [2, 2]"
proof -
  have "fst (new_entities (Suc (Suc 0))
        \<lparr>next_entity = 2, free_entities = [2, 2], component_storages = Map.empty :: component_id \<rightharpoonup> nat sparse_set\<rparr>)
       = [2, 2]"
    by (simp add: eval_defs)
  then have "fst (new_entities 2
        \<lparr>next_entity = 2, free_entities = [2, 2], component_storages = Map.empty :: component_id \<rightharpoonup> nat sparse_set\<rparr>)
       = [2, 2]"
    by (simp add: numeral_2_eq_2)
  moreover have "run (registry_init :: nat registry) [New_entity, New_entity, Remove_entity 2, Remove_entity 2]
     = Some \<lparr>next_entity = 2, free_entities = [2, 2], component_storages = Map.empty\<rparr>"
    by (simp add: eval_defs)
  ultimately show ?thesis by blast
qed

text \<open>
  C6, as the code has it. From a registry whose free list holds no id twice and only ids
  up to the counter \<^verbatim>\<open>next_entity_\<close>, \<open>k\<close> calls of \<^verbatim>\<open>new_entity()\<close> in a row return pairwise
  distinct ids, as long as the 64-bit counter does not wrap (\<open>next_entity + k < 2 ^ 64\<close>).
\<close>

theorem new_entity_ids_distinct:
  assumes "distinct (free_entities r)"
    and "\<forall>x \<in> set (free_entities r). x \<le> next_entity r"
    and "next_entity r + k < 2 ^ 64"
  shows "distinct (fst (new_entities k r))"
  using new_entities_ids [OF assms] by blast

theorem new_entity_ids_distinct_witness:
  "run (registry_init :: nat registry)
       [New_entity, New_entity, New_entity, Remove_entity 2, Remove_entity 1]
     = Some \<lparr>next_entity = 3, free_entities = [2, 1], component_storages = Map.empty\<rparr>
   \<and> fst (new_entities 4
        \<lparr>next_entity = 3, free_entities = [2, 1], component_storages = Map.empty :: component_id \<rightharpoonup> nat sparse_set\<rparr>)
       = [1, 2, 4, 5]
   \<and> distinct (fst (new_entities 4
        \<lparr>next_entity = 3, free_entities = [2, 1], component_storages = Map.empty :: component_id \<rightharpoonup> nat sparse_set\<rparr>))"
proof -
  let ?r = "\<lparr>next_entity = 3, free_entities = [2, 1], component_storages = Map.empty :: component_id \<rightharpoonup> nat sparse_set\<rparr>"
  have reach: "run (registry_init :: nat registry)
       [New_entity, New_entity, New_entity, Remove_entity 2, Remove_entity 1] = Some ?r"
    by (simp add: eval_defs)
  have "fst (new_entities (Suc (Suc (Suc (Suc 0)))) ?r) = [1, 2, 4, 5]"
    by (simp add: eval_defs)
  then have ids: "fst (new_entities 4 ?r) = [1, 2, 4, 5]"
    by (simp add: eval_nat_numeral)
  have "distinct (free_entities ?r)" "\<forall>x \<in> set (free_entities ?r). x \<le> next_entity ?r"
    "next_entity ?r + 4 < 2 ^ 64"
    by simp_all
  from new_entity_ids_distinct [OF this]
  have "distinct (fst (new_entities 4 ?r))" .
  with reach ids show ?thesis by blast
qed

text \<open>
  C7. After \<^verbatim>\<open>remove_entity(e)\<close> on a well-formed registry the entity has no component of
  any type \<open>t\<close>, and no later call gives it one except \<^verbatim>\<open>add_component\<close> of that type for
  \<open>e\<close>: in particular not \<^verbatim>\<open>new_entity()\<close>, which hands \<open>e\<close> out again and leaves every
  storage as it is.
\<close>

theorem removed_entity_has_no_component:
  assumes "registry_inv r" and "run (remove_entity r e) cs = Some r'"
    and "\<forall>a. Add_component t e a \<notin> set cs"
  shows "\<not> has_component r' t e
       \<and> component_storages (snd (new_entity r')) = component_storages r'"
proof
  have cleared: "\<not> has_component (remove_entity r e) t e"
    by (simp add: has_component_remove_entity[OF assms(1)])
  have inv: "registry_inv (remove_entity r e)"
    by (rule registry_inv_remove_entity[OF assms(1)])
  show "\<not> has_component r' t e"
    using absent_run[OF inv assms(2) cleared] assms(3) by blast
next
  show "component_storages (snd (new_entity r')) = component_storages r'"
    by (rule storages_new_entity)
qed

theorem removed_entity_has_no_component_witness:
  "registry_inv scenario1
   \<and> has_component scenario1 1 2
   \<and> fst (new_entity (remove_entity scenario1 2)) = 2
   \<and> (\<exists>r'. run (remove_entity scenario1 2) [New_entity, Add_component 2 2 (Value 7), Remove_component 1 1]
              = Some r'
          \<and> \<not> has_component r' 1 2)"
proof -
  have h: "has_component scenario1 1 2"
    by (simp add: scenario1_def eval_defs)
  have n: "fst (new_entity (remove_entity scenario1 2)) = 2"
    by (simp add: scenario1_def eval_defs)
  have "\<exists>r'. run (remove_entity scenario1 2) [New_entity, Add_component 2 2 (Value 7), Remove_component 1 1]
              = Some r'"
    by (simp add: scenario1_def eval_defs)
  then obtain r' where
    r: "run (remove_entity scenario1 2) [New_entity, Add_component 2 2 (Value 7), Remove_component 1 1] = Some r'"
    by blast
  have "\<forall>a. Add_component 1 2 a \<notin> set [New_entity, Add_component 2 2 (Value 7), Remove_component 1 1]"
    by simp
  from removed_entity_has_no_component [OF registry_inv_scenario1 r this]
  have "\<not> has_component r' 1 2" by simp
  with r h n registry_inv_scenario1 show ?thesis by blast
qed

text \<open>
  C8. The claim: after \<^verbatim>\<open>add_component<T>(e, v)\<close>, \<^verbatim>\<open>get_component<T>(e)\<close> yields \<open>v\<close>, for
  every \<open>v\<close>. \<^verbatim>\<open>emplace\<close> takes \<open>v\<close> by forwarding reference and builds the payload from it
  after \<^verbatim>\<open>dense_.emplace_back()\<close>. When \<open>v\<close> is a component of the same storage, as in
  \<^verbatim>\<open>add_component<T>(2, get_component<T>(1))\<close>, and the vector is full, \<^verbatim>\<open>emplace_back()\<close>
  moves the elements and the payload is read through a dangling reference: the call has
  undefined behaviour, and nothing says what \<^verbatim>\<open>get_component<T>(2)\<close> yields.
\<close>

theorem add_component_of_own_storage_dangles:
  "run registry_init [New_entity, New_entity, Add_component 1 1 (Value 10)] = Some scenario_alias
   \<and> try_get_component scenario_alias 1 1 = Some 10
   \<and> fst (add_component scenario_alias 1 2 (Payload_of 1)) = Some Dangling
   \<and> run scenario_alias [Add_component 1 2 (Payload_of 1), Get_component 1 2] = None"
proof -
  have "try_get_component scenario_alias 1 1 = Some 10"
    by (simp add: scenario_alias_def try_get_component_def eval_defs)
  moreover have d: "fst (add_component scenario_alias 1 2 (Payload_of 1)) = Some Dangling"
    by (simp add: scenario_alias_def eval_defs)
  moreover have "run scenario_alias [Add_component 1 2 (Payload_of 1), Get_component 1 2] = None"
    using d by (auto simp: step_def split: prod.splits option.splits error.splits)
  ultimately show ?thesis using run_scenario_alias by blast
qed

text \<open>
  C9. \<^verbatim>\<open>erase(e)\<close> leaves the set as it is when \<open>e\<close> is absent, and a second \<^verbatim>\<open>erase(e)\<close>
  right after the first changes nothing: the whole state is the same, hence membership,
  the live count and every payload.
\<close>

theorem erase_idempotent:
  "(\<not> has s e \<longrightarrow> erase s e = s) \<and> erase (erase s e) e = erase s e"
proof
  show "\<not> has s e \<longrightarrow> erase s e = s"
    by (simp add: erase_absent)
next
  have "\<not> has (erase s e) e" by (rule has_erase_self)
  then show "erase (erase s e) e = erase s e" by (rule erase_absent)
qed

theorem erase_idempotent_witness:
  "\<not> has \<lparr>sparse = (replicate 1024 npos)[2 := 0, 1 := 1],
           dense = [\<lparr>index = 2, payload = 7 :: nat\<rparr>, \<lparr>index = 1, payload = 9\<rparr>],
           dense_capacity = 2, nlive = 2\<rparr> 5
   \<and> erase \<lparr>sparse = (replicate 1024 npos)[2 := 0, 1 := 1],
           dense = [\<lparr>index = 2, payload = 7 :: nat\<rparr>, \<lparr>index = 1, payload = 9\<rparr>],
           dense_capacity = 2, nlive = 2\<rparr> 5
     = \<lparr>sparse = (replicate 1024 npos)[2 := 0, 1 := 1],
           dense = [\<lparr>index = 2, payload = 7\<rparr>, \<lparr>index = 1, payload = 9\<rparr>],
           dense_capacity = 2, nlive = 2\<rparr>
   \<and> has \<lparr>sparse = (replicate 1024 npos)[2 := 0, 1 := 1],
           dense = [\<lparr>index = 2, payload = 7 :: nat\<rparr>, \<lparr>index = 1, payload = 9\<rparr>],
           dense_capacity = 2, nlive = 2\<rparr> 2
   \<and> nlive (erase \<lparr>sparse = (replicate 1024 npos)[2 := 0, 1 := 1],
           dense = [\<lparr>index = 2, payload = 7 :: nat\<rparr>, \<lparr>index = 1, payload = 9\<rparr>],
           dense_capacity = 2, nlive = 2\<rparr> 2) = 1
   \<and> erase (erase \<lparr>sparse = (replicate 1024 npos)[2 := 0, 1 := 1],
           dense = [\<lparr>index = 2, payload = 7 :: nat\<rparr>, \<lparr>index = 1, payload = 9\<rparr>],
           dense_capacity = 2, nlive = 2\<rparr> 2) 2
     = erase \<lparr>sparse = (replicate 1024 npos)[2 := 0, 1 := 1],
           dense = [\<lparr>index = 2, payload = 7 :: nat\<rparr>, \<lparr>index = 1, payload = 9\<rparr>],
           dense_capacity = 2, nlive = 2\<rparr> 2"
proof -
  let ?s = "\<lparr>sparse = (replicate 1024 npos)[2 := 0, 1 := 1],
           dense = [\<lparr>index = 2, payload = 7 :: nat\<rparr>, \<lparr>index = 1, payload = 9\<rparr>],
           dense_capacity = 2, nlive = 2\<rparr>"
  have absent: "\<not> has ?s 5" by (simp add: has_def)
  have present: "has ?s 2" by (simp add: has_def npos_def)
  have count: "nlive (erase ?s 2) = 1" using present by (simp add: erase_def Let_def)
  from erase_idempotent [of ?s 5] absent have "erase ?s 5 = ?s" by blast
  moreover from erase_idempotent [of ?s 2] have "erase (erase ?s 2) 2 = erase ?s 2" by blast
  ultimately show ?thesis using absent present count by blast
qed

text \<open>
  C10. \<^verbatim>\<open>each<T>(f)\<close> and \<^verbatim>\<open>view<T1..Tn>(f)\<close> leave a registry whose storage map holds an
  empty storage for every requested type that had none, and is otherwise the map they
  found. (\<^verbatim>\<open>has_component\<close> and \<^verbatim>\<open>try_get_component\<close> are \<open>has_component\<close> and
  \<open>try_get_component\<close> above: they return an answer and no registry.)
\<close>

theorem queries_register_storages:
  "component_storages (snd (each r t)) c =
     (if c = t \<and> component_storages r c = None then Some sparse_set_init
      else component_storages r c)
   \<and> (view r a ts = Some (calls, r') \<longrightarrow>
       component_storages r' c =
         (if c \<in> set (a # ts) \<and> component_storages r c = None then Some sparse_set_init
          else component_storages r c))"
proof
  show "component_storages (snd (each r t)) c =
     (if c = t \<and> component_storages r c = None then Some sparse_set_init
      else component_storages r c)"
    by (rule storages_each)
next
  show "view r a ts = Some (calls, r') \<longrightarrow>
       component_storages r' c =
         (if c \<in> set (a # ts) \<and> component_storages r c = None then Some sparse_set_init
          else component_storages r c)"
  proof
    assume v: "view r a ts = Some (calls, r')"
    then have all: "list_all (\<lambda>t. t = a) ts" and r': "r' = snd (get_storage r a)"
      by (simp_all add: view_eq split: if_splits)
    from all have "c \<in> set (a # ts) \<longleftrightarrow> c = a" by (auto simp: list_all_iff)
    then show "component_storages r' c =
         (if c \<in> set (a # ts) \<and> component_storages r c = None then Some sparse_set_init
          else component_storages r c)"
      by (cases "c = a") (simp_all only: r' storages_get_storage, simp_all)
  qed
qed

theorem queries_register_storages_witness:
  "component_storages (registry_init :: nat registry) 2 = None
   \<and> component_storages (snd (each (registry_init :: nat registry) 2)) 2 = Some sparse_set_init
   \<and> (\<exists>calls r'. view (registry_init :: nat registry) 2 [2] = Some (calls, r')
         \<and> component_storages r' 2 = Some sparse_set_init)
   \<and> has_component (registry_init :: nat registry) 2 5 = False"
proof -
  have n: "component_storages (registry_init :: nat registry) 2 = None"
    by (simp add: registry_init_def)
  have h: "has_component (registry_init :: nat registry) 2 5 = False"
    by (simp add: has_component_def n)
  obtain calls r' where v: "view (registry_init :: nat registry) 2 [2] = Some (calls, r')"
    by (simp add: view_eq)
  from queries_register_storages [of "registry_init :: nat registry" 2 2 2 "[2]" calls r'] v n
  have "component_storages (snd (each (registry_init :: nat registry) 2)) 2 = Some sparse_set_init"
    and "component_storages r' 2 = Some sparse_set_init"
    by simp_all
  with n h v show ?thesis by blast
qed

end
